theory Spec2Isabelle
  imports Complex_Main
begin

section \<open>Slot-interleaved pagination of the product list page\<close>

text \<open>
  The definitions of this section embed \<^verbatim>\<open>calculatePageOffsets\<close> and
  \<^verbatim>\<open>enrichResults\<close> of \<^verbatim>\<open>src/app/pages/product-list/index.jsx\<close>.
  JavaScript numbers are modelled as mathematical integers: page sizes, counts, positions
  and spans are integer valued and far below \<open>2^53\<close>, where the double arithmetic of
  the source is exact. The three values a division by a zero page size produces
  (\<open>Infinity\<close>, \<open>-Infinity\<close>, \<open>NaN\<close>) are kept as constructors of their own.
\<close>

subsection \<open>Data\<close>

text \<open>
  A slot is the CMS record read by the page: \<^verbatim>\<open>position\<close>, \<^verbatim>\<open>rows\<close>,
  \<^verbatim>\<open>cols\<close> (after \<^verbatim>\<open>Number(...)\<close>), the flag \<^verbatim>\<open>isAmplience\<close>
  that \<^verbatim>\<open>enrichResults\<close> writes (absent, hence falsy, on a fresh slot) and the
  embedded content reference.
\<close>

record slot =
  position :: int
  rows :: int
  cols :: int
  isAmplience :: bool
  content :: string

text \<open>The closure variables of \<^verbatim>\<open>calculatePageOffsets\<close>.\<close>

record calc =
  pages :: "int list"
  processed :: int
  offset :: int

datatype jsnum = Fin int | PosInf | NegInf | NaN

subsection \<open>calculatePageOffsets\<close>

text \<open>\<^verbatim>\<open>Math.floor(index / pageSize)\<close>: integer division rounds towards minus infinity for
  either sign of the divisor, as the floor of the real quotient does.\<close>

definition pageNumber :: "int \<Rightarrow> int \<Rightarrow> jsnum" where
  "pageNumber pageSize index =
     (if pageSize \<noteq> 0 then Fin (index div pageSize)
      else if 0 < index then PosInf
      else if index < 0 then NegInf
      else NaN)"

text \<open>The loop \<^verbatim>\<open>while (pages.length <= uptoBasePage) pages.push(pages.length * pageSize - offset)\<close>
  for a finite bound.\<close>

function pushPages :: "int \<Rightarrow> int \<Rightarrow> int \<Rightarrow> int list \<Rightarrow> int list" where
  "pushPages pageSize off uptoBasePage ps =
     (if int (length ps) \<le> uptoBasePage
      then pushPages pageSize off uptoBasePage (ps @ [int (length ps) * pageSize - off])
      else ps)"
  by pat_completeness auto
termination
  by (relation "measure (\<lambda>(pageSize, off, uptoBasePage, ps). nat (uptoBasePage + 1 - int (length ps)))")
     auto

declare pushPages.simps [simp del]

text \<open>
  \<^verbatim>\<open>fillPages(upTo)\<close>. With the bound \<open>Infinity\<close> the loop condition stays true for
  ever: the call does not return (\<open>None\<close>). With \<open>-Infinity\<close> or \<open>NaN\<close> the condition
  is false at once.
\<close>

definition fillPages :: "int \<Rightarrow> int \<Rightarrow> calc \<Rightarrow> calc option" where
  "fillPages pageSize upTo st =
     (case pageNumber pageSize (upTo + offset st) of
        Fin uptoBasePage \<Rightarrow>
          Some (st\<lparr>pages := pushPages pageSize (offset st) uptoBasePage (pages st),
                   processed := upTo\<rparr>)
      | PosInf \<Rightarrow> None
      | NegInf \<Rightarrow> Some (st\<lparr>processed := upTo\<rparr>)
      | NaN \<Rightarrow> Some (st\<lparr>processed := upTo\<rparr>))"

definition skipContent :: "int \<Rightarrow> int \<Rightarrow> calc \<Rightarrow> calc option" where
  "skipContent pageSize sz st =
     (let st' = st\<lparr>offset := offset st + sz\<rparr>
      in fillPages pageSize (processed st') st')"

text \<open>\<^verbatim>\<open>isMobile ? 1 : Number(slot.cols) * Number(slot.rows)\<close> (line 135).\<close>

definition slotCells :: "bool \<Rightarrow> slot \<Rightarrow> int" where
  "slotCells isMobile s = (if isMobile then 1 else cols s * rows s)"

text \<open>One pass of the \<^verbatim>\<open>for\<close> loop body over a slot.\<close>

definition slotStep :: "int \<Rightarrow> bool \<Rightarrow> calc \<Rightarrow> slot \<Rightarrow> calc option" where
  "slotStep pageSize isMobile st s =
     (case fillPages pageSize (position s) st of
        None \<Rightarrow> None
      | Some st1 \<Rightarrow> skipContent pageSize (slotCells isMobile s) st1)"

fun slotLoop :: "int \<Rightarrow> bool \<Rightarrow> calc \<Rightarrow> slot list \<Rightarrow> calc option" where
  "slotLoop pageSize isMobile st [] = Some st"
| "slotLoop pageSize isMobile st (s # ss) =
     (case slotStep pageSize isMobile st s of
        None \<Rightarrow> None
      | Some st' \<Rightarrow> slotLoop pageSize isMobile st' ss)"

definition calcInit :: calc where
  "calcInit = \<lparr>pages = [], processed = 0, offset = 0\<rparr>"

text \<open>The slot list may be absent (\<^verbatim>\<open>if (ampSlots)\<close>): \<open>None\<close> is \<^verbatim>\<open>undefined\<close>.\<close>

definition calculatePageOffsets :: "int \<Rightarrow> int \<Rightarrow> slot list option \<Rightarrow> bool \<Rightarrow> int list option" where
  "calculatePageOffsets pageSize totalCount ampSlots isMobile =
     (case (case ampSlots of
              None \<Rightarrow> Some calcInit
            | Some ss \<Rightarrow> slotLoop pageSize isMobile calcInit ss) of
        None \<Rightarrow> None
      | Some st \<Rightarrow> map_option pages (fillPages pageSize totalCount st))"

subsection \<open>enrichResults\<close>

text \<open>
  The search result of the commerce API, possibly absent as a whole and possibly without
  \<^verbatim>\<open>hits\<close>. The enriched sequence mixes product hits and slot objects.
\<close>

record 'h searchResult =
  hits :: "'h list option"
  offset_r :: int
  total_r :: int

datatype 'h item = Hit 'h | SlotItem slot

text \<open>\<^verbatim>\<open>pages.findIndex(p)\<close>: the first index whose element satisfies \<open>p\<close>, or \<open>-1\<close>.\<close>

fun findIndex :: "('a \<Rightarrow> bool) \<Rightarrow> 'a list \<Rightarrow> int" where
  "findIndex p [] = -1"
| "findIndex p (x # xs) =
     (if p x then 0 else (let i = findIndex p xs in if i = -1 then -1 else i + 1))"

text \<open>\<^verbatim>\<open>xs[i]\<close> for an integer \<open>i\<close>: \<^verbatim>\<open>undefined\<close> (\<open>None\<close>) out of range.\<close>

definition jsIndex :: "'a list \<Rightarrow> int \<Rightarrow> 'a option" where
  "jsIndex xs i = (if 0 \<le> i \<and> i < int (length xs) then Some (xs ! nat i) else None)"

text \<open>
  \<^verbatim>\<open>xs.slice(0, end)\<close>: a negative end counts from the back, \<^verbatim>\<open>NaN\<close> (\<open>None\<close>,
  from arithmetic on \<^verbatim>\<open>undefined\<close>) is read as \<open>0\<close>.
\<close>

definition jsSlice0 :: "'a list \<Rightarrow> int option \<Rightarrow> 'a list" where
  "jsSlice0 xs e =
     (case e of
        None \<Rightarrow> []
      | Some n \<Rightarrow> if n < 0 then take (nat (int (length xs) + n)) xs else take (nat n) xs)"

text \<open>\<^verbatim>\<open>xs.splice(start, 0, x)\<close>: a negative start counts from the back, and the start
  is clamped to the array.\<close>

definition jsSpliceIn :: "'a list \<Rightarrow> int \<Rightarrow> 'a \<Rightarrow> 'a list" where
  "jsSpliceIn xs start x =
     (let n = int (length xs);
          k = (if start < 0 then max (n + start) 0 else min start n)
      in take (nat k) xs @ x # drop (nat k) xs)"

text \<open>Lines 151 to 154: the rendered page the fetch offset belongs to.\<close>

definition pageIdOf :: "int list \<Rightarrow> int \<Rightarrow> int" where
  "pageIdOf pgs off =
     (let pageId = findIndex (\<lambda>pageIndex. pageIndex > off) pgs - 1
      in if pageId = -2 then int (length pgs) - 1 else pageId)"

text \<open>Line 158: \<^verbatim>\<open>(pages[pageId + 1] ?? total) - pages[pageId]\<close>; \<open>None\<close> is \<^verbatim>\<open>NaN\<close>.\<close>

definition sfccCount :: "int list \<Rightarrow> int \<Rightarrow> int \<Rightarrow> int option" where
  "sfccCount pgs pageId tot =
     (case jsIndex pgs pageId of
        None \<Rightarrow> None
      | Some base \<Rightarrow> Some ((case jsIndex pgs (pageId + 1) of None \<Rightarrow> tot | Some nxt \<Rightarrow> nxt) - base))"

text \<open>\<^verbatim>\<open>isMobile ? 1 : Number(slot.rows) * Number(slot.cols)\<close> (line 176).\<close>

definition slotCellsEnrich :: "bool \<Rightarrow> slot \<Rightarrow> int" where
  "slotCellsEnrich isMobile s = (if isMobile then 1 else rows s * cols s)"

text \<open>
  The \<^verbatim>\<open>for (let slot of ampSlots)\<close> loop of lines 164 to 183, with
  \<^verbatim>\<open>continue\<close> and \<^verbatim>\<open>break\<close>. The slot objects are shared with the caller, so
  the function returns the slot list as the loop leaves it beside the items.
\<close>

fun placeSlots :: "int \<Rightarrow> int \<Rightarrow> bool \<Rightarrow> int \<Rightarrow> 'h item list \<Rightarrow> slot list
    \<Rightarrow> 'h item list \<times> slot list" where
  "placeSlots pageBase pageSize isMobile reservedSpaces items [] = (items, [])"
| "placeSlots pageBase pageSize isMobile reservedSpaces items (s # ss) =
     (let pos = position s in
      if pos < pageBase then
        (case placeSlots pageBase pageSize isMobile reservedSpaces items ss of
           (items', ss') \<Rightarrow> (items', s # ss'))
      else if pos \<ge> pageBase + pageSize then (items, s # ss)
      else
        (let sz = slotCellsEnrich isMobile s;
             s' = s\<lparr>isAmplience := True\<rparr>;
             items1 = jsSpliceIn items (pos - pageBase - reservedSpaces) (SlotItem s')
         in case placeSlots pageBase pageSize isMobile (reservedSpaces + (sz - 1)) items1 ss of
              (items', ss') \<Rightarrow> (items', s' # ss')))"

text \<open>
  \<^verbatim>\<open>enrichResults\<close>. The first component is the returned value (\<open>None\<close> for
  \<^verbatim>\<open>undefined\<close>), the second the slot list argument after the call.
\<close>

definition enrichResults :: "'h searchResult option \<Rightarrow> int \<Rightarrow> slot list option \<Rightarrow> int list \<Rightarrow> bool
    \<Rightarrow> 'h item list option \<times> slot list option" where
  "enrichResults productSearchResults pageSize ampSlots pgs isMobile =
     (case productSearchResults of
        None \<Rightarrow> (None, ampSlots)
      | Some r \<Rightarrow>
          (case hits r of
             None \<Rightarrow> (None, ampSlots)
           | Some hs \<Rightarrow>
               (let pageId = pageIdOf pgs (offset_r r);
                    pageBase = pageId * pageSize;
                    items = jsSlice0 (map Hit hs) (sfccCount pgs pageId (total_r r))
                in case ampSlots of
                     None \<Rightarrow> (Some items, None)
                   | Some ss \<Rightarrow>
                       (case placeSlots pageBase pageSize isMobile 0 items ss of
                          (items', ss') \<Rightarrow> (Some items', Some ss')))))"

section \<open>Filter toggling\<close>

text \<open>
  \<^verbatim>\<open>toggleFilter\<close> (lines 359 to 387 of the product list page). The search parameters
  carry the refinements as an object from attribute id to either a string (values joined
  by \<^verbatim>\<open>|\<close>) or an array of strings. The copy made by the spread is shallow: the
  \<^verbatim>\<open>refine\<close> object is shared, so the writes reach the original too. The function
  returns the original parameters after the call and the copy handed to
  \<^verbatim>\<open>stringifySearchParams\<close> for navigation. The argument \<open>value\<close> stands for
  \<^verbatim>\<open>value.value\<close>, the only part of the value object that is read, and
  \<^verbatim>\<open>refine\<close> is always an object, as the parser of the search parameters makes it.
\<close>

datatype refval = Str string | Arr "string list"

record searchParams =
  limit :: int
  offset_p :: "int option"
  sort_p :: "string option"
  refine :: "string \<rightharpoonup> refval"

text \<open>\<^verbatim>\<open>s.split(c)\<close> for a one character separator.\<close>

fun jsSplit :: "char \<Rightarrow> string \<Rightarrow> string list" where
  "jsSplit c [] = [[]]"
| "jsSplit c (x # xs) =
     (if x = c then [] # jsSplit c xs
      else (case jsSplit c xs of [] \<Rightarrow> [[x]] | w # ws \<Rightarrow> (x # w) # ws))"

text \<open>\<^verbatim>\<open>searchParamsCopy.refine[attributeId] || []\<close> followed by the array test: an absent
  value and the empty string are falsy.\<close>

definition refineValues :: "refval option \<Rightarrow> string list" where
  "refineValues v =
     (case v of
        None \<Rightarrow> []
      | Some (Arr vs) \<Rightarrow> vs
      | Some (Str s) \<Rightarrow> if s = [] then [] else jsSplit (CHR ''|'') s)"

definition toggleFilter :: "string \<Rightarrow> string \<Rightarrow> bool \<Rightarrow> bool \<Rightarrow> searchParams
    \<Rightarrow> searchParams \<times> searchParams" where
  "toggleFilter value attributeId selected allowMultiple sp =
     (let r0 = refine sp;
          r1 =
            (if \<not> allowMultiple then
               (let r = r0(attributeId := None)
                in if \<not> selected then r(attributeId \<mapsto> Str value) else r)
             else
               (let vals = refineValues (r0 attributeId);
                    vals' = (if \<not> selected then vals @ [value] else filter (\<lambda>v. v \<noteq> value) vals)
                in if length vals' = 0 then r0(attributeId := None)
                   else r0(attributeId \<mapsto> Arr vals')))
      in (sp\<lparr>refine := r1\<rparr>, sp\<lparr>offset_p := None, refine := r1\<rparr>))"

section \<open>The import command of the CLI\<close>

text \<open>
  The handler of the \<^verbatim>\<open>import\<close> command (lines 73 to 96 of the CLI module) prints
  a progress line and calls \<^verbatim>\<open>childProcess.execSync\<close> seven times. \<^verbatim>\<open>execSync\<close>
  returns only when the child process has ended and throws when its exit status is not
  zero; nothing in the handler catches. The environment is a function from the commands
  run so far and the command to run to the exit status of that run.
\<close>

record Context =
  automationDir :: string
  hubId :: string
  clientId :: string
  clientSecret :: string
  contentRepoId :: string
  slotsRepoId :: string

datatype event = ConsoleLog string | ExecSync string

datatype control = Running | Thrown

type_synonym shell = "string list \<Rightarrow> string \<Rightarrow> int"

fun execsOf :: "event list \<Rightarrow> string list" where
  "execsOf [] = []"
| "execsOf (ConsoleLog m # es) = execsOf es"
| "execsOf (ExecSync c # es) = c # execsOf es"

fun consoleLog :: "string \<Rightarrow> event list \<times> control \<Rightarrow> event list \<times> control" where
  "consoleLog msg (tr, Running) = (tr @ [ConsoleLog msg], Running)"
| "consoleLog msg (tr, Thrown) = (tr, Thrown)"

fun execSync :: "shell \<Rightarrow> string \<Rightarrow> event list \<times> control \<Rightarrow> event list \<times> control" where
  "execSync sh cmd (tr, Running) =
     (tr @ [ExecSync cmd], if sh (execsOf tr) cmd = 0 then Running else Thrown)"
| "execSync sh cmd (tr, Thrown) = (tr, Thrown)"

definition dcCli :: string where
  "dcCli = ''./node_modules/.bin/dc-cli ''"

definition configureCmd :: "Context \<Rightarrow> string" where
  "configureCmd c = dcCli @ ''configure --clientId '' @ clientId c @ '' --clientSecret '' @ clientSecret c
     @ '' --hubId '' @ hubId c"

definition settingsCmd :: "Context \<Rightarrow> string" where
  "settingsCmd c = dcCli @ ''settings import '' @ automationDir c @ ''/settings''"

definition schemaCmd :: "Context \<Rightarrow> string" where
  "schemaCmd c = dcCli @ ''content-type-schema import '' @ automationDir c @ ''/schema''"

definition typeCmd :: "Context \<Rightarrow> string" where
  "typeCmd c = dcCli @ ''content-type import '' @ automationDir c @ ''/type''"

definition contentCmd :: "Context \<Rightarrow> string" where
  "contentCmd c = dcCli @ ''content-item import '' @ automationDir c @ ''/content/content --baseRepo ''
     @ contentRepoId c"

definition slotsCmd :: "Context \<Rightarrow> string" where
  "slotsCmd c = dcCli @ ''content-item import '' @ automationDir c @ ''/content/slots --baseRepo ''
     @ slotsRepoId c"

definition eventsCmd :: "Context \<Rightarrow> string" where
  "eventsCmd c = dcCli @ ''event import '' @ automationDir c @ ''/events''"

definition importHandler :: "shell \<Rightarrow> Context \<Rightarrow> event list \<times> control" where
  "importHandler sh c =
     (let r = ([], Running);
          r = consoleLog ''configuring dc-cli...'' r;
          r = execSync sh (configureCmd c) r;
          r = consoleLog ''importing settings...'' r;
          r = execSync sh (settingsCmd c) r;
          r = consoleLog ''importing content type schemas...'' r;
          r = execSync sh (schemaCmd c) r;
          r = consoleLog ''importing content types...'' r;
          r = execSync sh (typeCmd c) r;
          r = consoleLog ''importing content...'' r;
          r = execSync sh (contentCmd c) r;
          r = consoleLog ''importing slots...'' r;
          r = execSync sh (slotsCmd c) r;
          r = consoleLog ''importing events...'' r;
          r = execSync sh (eventsCmd c) r
      in consoleLog ''done!'' r)"

text \<open>
  The specification's reading of the command, for comparison with the handler: a fixed list
  of steps run in order, each after the one before it has ended, stopping after the first
  step whose exit status is not zero.
\<close>

definition importSteps :: "Context \<Rightarrow> string list" where
  "importSteps c = [settingsCmd c, schemaCmd c, typeCmd c, contentCmd c, slotsCmd c, eventsCmd c]"

fun runSteps :: "shell \<Rightarrow> string list \<Rightarrow> string list \<Rightarrow> string list" where
  "runSteps sh sofar [] = sofar"
| "runSteps sh sofar (c # cs) =
     (if sh sofar c = 0 then runSteps sh (sofar @ [c]) cs else sofar @ [c])"

section \<open>Notions used in the statements\<close>

text \<open>What \<^verbatim>\<open>calculatePageOffsets\<close> reads of a slot: its position and its spans.\<close>

definition slotGeometry :: "slot \<Rightarrow> int \<times> int \<times> int" where
  "slotGeometry s = (position s, rows s, cols s)"

text \<open>The cells reserved by a slot list: the sum of the occupied-cell counts.\<close>

definition reservedCells :: "bool \<Rightarrow> slot list \<Rightarrow> int" where
  "reservedCells isMobile ss = sum_list (map (slotCells isMobile) ss)"

text \<open>The index range of a page, \<^verbatim>\<open>pageBase <= pos < pageBase + pageSize\<close>, and the
  write \<^verbatim>\<open>slot.isAmplience = true\<close> applied to the slots of that range.\<close>

definition inPage :: "int \<Rightarrow> int \<Rightarrow> slot \<Rightarrow> bool" where
  "inPage pageBase pageSize s = (pageBase \<le> position s \<and> position s < pageBase + pageSize)"

definition markSlot :: "int \<Rightarrow> int \<Rightarrow> slot \<Rightarrow> slot" where
  "markSlot pageBase pageSize s = (if inPage pageBase pageSize s then s\<lparr>isAmplience := True\<rparr> else s)"

text \<open>A table whose first page starts at product \<open>0\<close> and whose later pages all start
  after it.\<close>

fun headZeroTailPos :: "int list \<Rightarrow> bool" where
  "headZeroTailPos [] = False"
| "headZeroTailPos (x # xs) = (x = 0 \<and> list_all (\<lambda>y. 0 < y) xs)"

text \<open>Slots that do not overlap: each is positioned at or after the cell \<open>e\<close> where the
  cells of the one before it end.\<close>

fun slotsApart :: "bool \<Rightarrow> int \<Rightarrow> slot list \<Rightarrow> bool" where
  "slotsApart isMobile e [] = True"
| "slotsApart isMobile e (s # ss) =
     (e \<le> position s \<and> slotsApart isMobile (position s + slotCells isMobile s) ss)"

section \<open>Properties of the page-offset calculator\<close>

subsection \<open>The page-filling loop in closed form\<close>

lemma pushPages_eq:
  "pushPages pageSize off t xs = xs @ map (\<lambda>k. int k * pageSize - off) [length xs ..< nat (t + 1)]"
proof (induction pageSize off t xs rule: pushPages.induct)
  case (1 pageSize off t xs)
  show ?case
  proof (cases "int (length xs) \<le> t")
    case True
    then have lt: "length xs < nat (t + 1)" by linarith
    have "pushPages pageSize off t xs = pushPages pageSize off t (xs @ [int (length xs) * pageSize - off])"
      using True by (subst pushPages.simps) simp
    also have "\<dots> = (xs @ [int (length xs) * pageSize - off]) @
        map (\<lambda>k. int k * pageSize - off) [Suc (length xs) ..< nat (t + 1)]"
      using "1.IH" [OF True] by simp
    also have "\<dots> = xs @ map (\<lambda>k. int k * pageSize - off) [length xs ..< nat (t + 1)]"
      using lt by (simp add: upt_conv_Cons)
    finally show ?thesis .
  next
    case False
    then have "nat (t + 1) \<le> length xs" by linarith
    moreover have "pushPages pageSize off t xs = xs"
      using False by (subst pushPages.simps) simp
    ultimately show ?thesis by simp
  qed
qed

lemma length_pushPages:
  "length (pushPages pageSize off t xs) = max (length xs) (nat (t + 1))"
  by (simp add: pushPages_eq)

lemma fillPages_nonzero:
  "pageSize \<noteq> 0 \<Longrightarrow> fillPages pageSize upTo st =
     Some (st\<lparr>pages := pushPages pageSize (offset st) ((upTo + offset st) div pageSize) (pages st),
              processed := upTo\<rparr>)"
  by (simp add: fillPages_def pageNumber_def)

lemma slotStep_nonzero:
  "pageSize \<noteq> 0 \<Longrightarrow> slotStep pageSize isMobile st s =
     Some (st\<lparr>pages := pushPages pageSize (offset st + slotCells isMobile s)
                         ((position s + (offset st + slotCells isMobile s)) div pageSize)
                         (pushPages pageSize (offset st) ((position s + offset st) div pageSize) (pages st)),
              processed := position s,
              offset := offset st + slotCells isMobile s\<rparr>)"
  by (simp add: slotStep_def skipContent_def fillPages_nonzero Let_def)

subsection \<open>The offset shift of one slot\<close>

text \<open>
  Claim C2, as amended. For a positive page size, one pass of the slot loop (filling the
  page boundaries up to the slot's position, then \<^verbatim>\<open>skipContent\<close>) returns and leaves
  the accumulated offset shift larger by the slot's occupied-cell count, not by that
  count minus one.
\<close>

theorem slotStep_offset_shift:
  "0 < pageSize \<Longrightarrow>
     map_option offset (slotStep pageSize isMobile st s) = Some (offset st + slotCells isMobile s)"
  by (simp add: slotStep_nonzero)

theorem slotStep_offset_shift_witness:
  "map_option offset
     (slotStep 3 False calcInit \<lparr>position = 0, rows = 2, cols = 2, isAmplience = False, content = []\<rparr>)
   = Some 4"
  using slotStep_offset_shift [of 3 False calcInit
      "\<lparr>position = 0, rows = 2, cols = 2, isAmplience = False, content = []\<rparr>"]
  by (simp add: calcInit_def slotCells_def)

text \<open>The claim as the specification words it fails: a slot of two rows and two columns
  shifts the offset by four, and four is not three.\<close>

theorem slotStep_minus_one_counterexample:
  "map_option offset
     (slotStep 3 False calcInit \<lparr>position = 0, rows = 2, cols = 2, isAmplience = False, content = []\<rparr>)
   \<noteq> Some (offset calcInit
        + (slotCells False \<lparr>position = 0, rows = 2, cols = 2, isAmplience = False, content = []\<rparr> - 1))"
  by (simp add: slotStep_nonzero calcInit_def slotCells_def)

text \<open>Over the whole slot list the shift is the sum of the occupied-cell counts.\<close>

lemma slotLoop_offset:
  "0 < pageSize \<Longrightarrow>
     map_option offset (slotLoop pageSize isMobile st ss) = Some (offset st + reservedCells isMobile ss)"
proof (induction ss arbitrary: st)
  case Nil
  then show ?case by (simp add: reservedCells_def)
next
  case (Cons s ss)
  let ?st1 = "st\<lparr>pages := pushPages pageSize (offset st + slotCells isMobile s)
                         ((position s + (offset st + slotCells isMobile s)) div pageSize)
                         (pushPages pageSize (offset st) ((position s + offset st) div pageSize) (pages st)),
              processed := position s,
              offset := offset st + slotCells isMobile s\<rparr>"
  have "slotLoop pageSize isMobile st (s # ss) = slotLoop pageSize isMobile ?st1 ss"
    using Cons.prems by (simp add: slotStep_nonzero)
  moreover have "map_option offset (slotLoop pageSize isMobile ?st1 ss)
      = Some (offset ?st1 + reservedCells isMobile ss)"
    using Cons.prems by (rule Cons.IH)
  ultimately show ?case by (auto simp: reservedCells_def)
qed

subsection \<open>One cell per slot on mobile\<close>


subsection \<open>Determinism\<close>

lemma slotStep_geometry:
  assumes "slotGeometry s = slotGeometry s'"
  shows "slotStep pageSize isMobile st s = slotStep pageSize isMobile st s'"
proof -
  from assms have "slotCells isMobile s = slotCells isMobile s'" and "position s = position s'"
    by (simp_all add: slotCells_def slotGeometry_def)
  then show ?thesis by (simp add: slotStep_def split: option.splits)
qed

lemma slotLoop_geometry:
  "map slotGeometry ss = map slotGeometry ss' \<Longrightarrow>
     slotLoop pageSize isMobile st ss = slotLoop pageSize isMobile st ss'"
proof (induction ss arbitrary: ss' st)
  case Nil
  then show ?case by simp
next
  case (Cons s ss)
  then obtain t ts where ss': "ss' = t # ts" by (cases ss') auto
  with Cons.prems have g: "slotGeometry s = slotGeometry t" and m: "map slotGeometry ss = map slotGeometry ts"
    by simp_all
  show ?case
    using Cons.IH [OF m] slotStep_geometry [OF g, of pageSize isMobile st]
    by (simp add: ss' split: option.splits)
qed

text \<open>
  Claim C9. The table is a function of the page size, the total count, the slot list and
  the mobile flag, computed from a state created afresh by each call: two runs on equal
  arguments give equal results (also the same failure to return). Of the slot list only
  the positions and spans are read, so the two runs agree even when the slot objects
  differ elsewhere, as they do once \<^verbatim>\<open>enrichResults\<close> has written its flag.
\<close>

theorem calculatePageOffsets_deterministic:
  assumes "pageSize = pageSize'" and "totalCount = totalCount'" and "isMobile = isMobile'"
    and "map_option (map slotGeometry) ampSlots = map_option (map slotGeometry) ampSlots'"
  shows "calculatePageOffsets pageSize totalCount ampSlots isMobile =
         calculatePageOffsets pageSize' totalCount' ampSlots' isMobile'"
proof (cases ampSlots)
  case None
  with assms(4) have "ampSlots' = None" by simp
  with None assms show ?thesis by simp
next
  case (Some ss)
  with assms(4) obtain ss' where s': "ampSlots' = Some ss'" and m: "map slotGeometry ss = map slotGeometry ss'"
    by (cases ampSlots') auto
  show ?thesis
    using slotLoop_geometry [OF m, of pageSize' isMobile' calcInit] assms(1-3)
    by (simp add: calculatePageOffsets_def Some s')
qed

theorem calculatePageOffsets_deterministic_witness:
  "calculatePageOffsets 3 10
     (Some [\<lparr>position = 0, rows = 1, cols = 1, isAmplience = False, content = ''hero''\<rparr>]) False =
   calculatePageOffsets 3 10
     (Some [\<lparr>position = 0, rows = 1, cols = 1, isAmplience = True, content = ''hero''\<rparr>]) False"
  by (rule calculatePageOffsets_deterministic) (simp_all add: slotGeometry_def)

subsection \<open>Arithmetic of pages\<close>

lemma div_mult_le_int: "0 < b \<Longrightarrow> (a div b) * b \<le> (a::int)"
  using div_mult_mod_eq [of a b] pos_mod_sign [of b a] by linarith

lemma less_div_succ_mult_int: "0 < b \<Longrightarrow> (a::int) < (a div b + 1) * b"
proof -
  assume "0 < b"
  then have "a mod b < b" by (rule pos_mod_bound)
  moreover have "(a div b + 1) * b = a div b * b + b" by (simp add: algebra_simps)
  ultimately show ?thesis using div_mult_mod_eq [of a b] by linarith
qed

lemma pushPages_covers:
  assumes "0 < pageSize"
  shows "a < pageSize * int (length (pushPages pageSize off (a div pageSize) xs))"
proof -
  have "a div pageSize + 1 \<le> int (length (pushPages pageSize off (a div pageSize) xs))"
    by (simp add: length_pushPages)
  then have "(a div pageSize + 1) * pageSize \<le> int (length (pushPages pageSize off (a div pageSize) xs)) * pageSize"
    using assms by (simp add: mult_right_mono)
  with less_div_succ_mult_int [OF assms, of a] show ?thesis by (simp add: mult.commute)
qed

subsection \<open>The length of the table\<close>







text \<open>
  When the page size divides the total count plus the reserved cells, the last entry is a
  page that starts where the products end: nine products on pages of three give four
  entries.
\<close>

lemma calculatePageOffsets_exact_multiple:
  "calculatePageOffsets 3 9 (Some []) False = Some [0, 3, 6, 9]"
  by (simp add: calculatePageOffsets_def fillPages_nonzero calcInit_def pushPages_eq upt_rec)

subsection \<open>The order of the table\<close>

lemma sorted_new_pages:
  assumes "0 < pageSize"
  shows "sorted (map (\<lambda>k. int k * pageSize - off) [m ..< n])"
proof -
  have "sorted_wrt (\<lambda>i j. int i * pageSize - off \<le> int j * pageSize - off) [m ..< n]"
  proof (rule sorted_wrt_mono_rel [OF _ sorted_wrt_upt])
    fix i j :: nat assume "i < j"
    then have "int i * pageSize \<le> int j * pageSize" using assms by (simp add: mult_right_mono)
    then show "int i * pageSize - off \<le> int j * pageSize - off" by simp
  qed
  then show ?thesis by (simp add: sorted_map)
qed

lemma pushPages_sorted:
  assumes "0 < pageSize" and "sorted xs" and "\<forall>x\<in>set xs. x \<le> b"
    and "xs = [] \<or> b + off \<le> pageSize * int (length xs)"
  shows "sorted (pushPages pageSize off t xs)"
proof -
  have "x \<le> int k * pageSize - off" if "x \<in> set xs" and "length xs \<le> k" for x k
  proof -
    from that(1) assms(4) have le: "b + off \<le> pageSize * int (length xs)" by auto
    have "pageSize * int (length xs) \<le> pageSize * int k"
      using that(2) assms(1) by (simp add: mult_left_mono)
    moreover have "x \<le> b" using assms(3) that(1) by blast
    moreover have "int k * pageSize = pageSize * int k" by (rule mult.commute)
    ultimately show ?thesis using le by linarith
  qed
  then have "\<forall>x\<in>set xs. \<forall>y\<in>set (map (\<lambda>k. int k * pageSize - off) [length xs ..< nat (t + 1)]). x \<le> y"
    by auto
  with assms(2) sorted_new_pages [OF assms(1), of off "length xs" "nat (t + 1)"]
  have "sorted (xs @ map (\<lambda>k. int k * pageSize - off) [length xs ..< nat (t + 1)])"
    unfolding sorted_append by blast
  then show ?thesis by (simp only: pushPages_eq)
qed

lemma pushPages_bounded:
  assumes "0 < pageSize" and "\<forall>x\<in>set xs. x \<le> u"
  shows "\<forall>x\<in>set (pushPages pageSize off ((u + off) div pageSize) xs). x \<le> u"
proof -
  have "int k * pageSize - off \<le> u" if "k < nat ((u + off) div pageSize + 1)" for k
  proof -
    from that have "int k \<le> (u + off) div pageSize" by linarith
    then have "int k * pageSize \<le> ((u + off) div pageSize) * pageSize"
      using assms(1) by (simp add: mult_right_mono)
    with div_mult_le_int [OF assms(1), of "u + off"] show ?thesis by linarith
  qed
  with assms(2) show ?thesis by (auto simp: pushPages_eq)
qed

lemma slotStep_sorted:
  assumes "0 < pageSize" and "slotCells isMobile s \<le> 1"
    and "sorted (pages st)" and "\<forall>x\<in>set (pages st). x \<le> processed st"
    and "pages st = [] \<or> processed st + offset st < pageSize * int (length (pages st))"
    and "pages st = [] \<or> processed st \<le> position s"
  shows "\<exists>st'. slotStep pageSize isMobile st s = Some st' \<and> processed st' = position s \<and>
           sorted (pages st') \<and> (\<forall>x\<in>set (pages st'). x \<le> processed st') \<and>
           processed st' + offset st' < pageSize * int (length (pages st'))"
proof -
  let ?u = "position s" and ?sz = "slotCells isMobile s"
  let ?xs1 = "pushPages pageSize (offset st) ((?u + offset st) div pageSize) (pages st)"
  let ?off2 = "offset st + ?sz"
  let ?xs2 = "pushPages pageSize ?off2 ((?u + ?off2) div pageSize) ?xs1"
  let ?st' = "st\<lparr>pages := ?xs2, processed := ?u, offset := ?off2\<rparr>"
  have p1: "pages st = [] \<or> processed st + offset st \<le> pageSize * int (length (pages st))"
    using assms(5) by auto
  have s1: "sorted ?xs1"
    using assms(1,3,4) p1 by (rule pushPages_sorted)
  have "\<forall>x\<in>set (pages st). x \<le> ?u"
    using assms(4,6) by auto
  with assms(1) have b1: "\<forall>x\<in>set ?xs1. x \<le> ?u"
    by (rule pushPages_bounded)
  have c1: "?u + offset st < pageSize * int (length ?xs1)"
    using assms(1) by (rule pushPages_covers)
  have p2: "?xs1 = [] \<or> ?u + ?off2 \<le> pageSize * int (length ?xs1)"
    using c1 assms(2) by linarith
  have s2: "sorted ?xs2"
    using assms(1) s1 b1 p2 by (rule pushPages_sorted)
  have b2: "\<forall>x\<in>set ?xs2. x \<le> ?u"
    using assms(1) b1 by (rule pushPages_bounded)
  have c2: "?u + ?off2 < pageSize * int (length ?xs2)"
    using assms(1) by (rule pushPages_covers)
  have e: "pages ?st' = ?xs2" "processed ?st' = ?u" "offset ?st' = ?off2"
    by simp_all
  have step: "slotStep pageSize isMobile st s = Some ?st'"
    using assms(1) by (simp add: slotStep_nonzero)
  have "processed ?st' = ?u" by (rule e)
  moreover have "sorted (pages ?st')" unfolding e by (rule s2)
  moreover have "\<forall>x\<in>set (pages ?st'). x \<le> processed ?st'" unfolding e by (rule b2)
  moreover have "processed ?st' + offset ?st' < pageSize * int (length (pages ?st'))"
    unfolding e by (rule c2)
  ultimately show ?thesis using step by blast
qed

lemma slotLoop_sorted:
  assumes "0 < pageSize" and "\<forall>s\<in>set ss. slotCells isMobile s \<le> 1" and "sorted (map position ss)"
    and "sorted (pages st)" and "\<forall>x\<in>set (pages st). x \<le> processed st"
    and "pages st = [] \<or> processed st + offset st < pageSize * int (length (pages st))"
    and "pages st = [] \<or> (\<forall>s\<in>set ss. processed st \<le> position s)"
  shows "\<exists>st'. slotLoop pageSize isMobile st ss = Some st' \<and>
           sorted (pages st') \<and> (\<forall>x\<in>set (pages st'). x \<le> processed st') \<and>
           (pages st' = [] \<or> processed st' + offset st' < pageSize * int (length (pages st')))"
  using assms(2-7)
proof (induction ss arbitrary: st)
  case Nil
  then show ?case by simp
next
  case (Cons s ss)
  have sz: "slotCells isMobile s \<le> 1" and szs: "\<forall>s\<in>set ss. slotCells isMobile s \<le> 1"
    using Cons.prems(1) by simp_all
  have srt: "sorted (map position ss)" and le: "\<forall>t\<in>set ss. position s \<le> position t"
    using Cons.prems(2) by auto
  have first: "pages st = [] \<or> processed st \<le> position s"
    using Cons.prems(6) by auto
  from slotStep_sorted [OF assms(1) sz Cons.prems(3,4,5) first]
  obtain st1 where st1: "slotStep pageSize isMobile st s = Some st1" "processed st1 = position s"
      "sorted (pages st1)" "\<forall>x\<in>set (pages st1). x \<le> processed st1"
      "processed st1 + offset st1 < pageSize * int (length (pages st1))" by blast
  have nxt: "pages st1 = [] \<or> (\<forall>t\<in>set ss. processed st1 \<le> position t)"
    using le st1(2) by simp
  from Cons.IH [OF szs srt st1(3,4) _ nxt] st1(1,5) show ?case by simp
qed

text \<open>
  When no slot occupies more than one cell, as on mobile, the table of a slot list sorted by
  position is non-decreasing.
\<close>

lemma calculatePageOffsets_sorted_one_cell:
  assumes "0 < pageSize" and "sorted (map position ss)" and "\<forall>s\<in>set ss. slotCells isMobile s \<le> 1"
  shows "\<exists>pgs. calculatePageOffsets pageSize totalCount (Some ss) isMobile = Some pgs \<and> sorted pgs"
proof -
  have "\<exists>st'. slotLoop pageSize isMobile calcInit ss = Some st' \<and>
           sorted (pages st') \<and> (\<forall>x\<in>set (pages st'). x \<le> processed st') \<and>
           (pages st' = [] \<or> processed st' + offset st' < pageSize * int (length (pages st')))"
    using assms by (intro slotLoop_sorted [where st = calcInit]) (simp_all add: calcInit_def)
  then obtain st' where st': "slotLoop pageSize isMobile calcInit ss = Some st'"
      "sorted (pages st')" "\<forall>x\<in>set (pages st'). x \<le> processed st'"
      "pages st' = [] \<or> processed st' + offset st' < pageSize * int (length (pages st'))" by blast
  have "pages st' = [] \<or> processed st' + offset st' \<le> pageSize * int (length (pages st'))"
    using st'(4) by auto
  with assms(1) st'(2,3)
  have "sorted (pushPages pageSize (offset st') ((totalCount + offset st') div pageSize) (pages st'))"
    by (rule pushPages_sorted)
  then show ?thesis
    using st'(1) assms(1) by (simp add: calculatePageOffsets_def fillPages_nonzero)
qed

lemma calculatePageOffsets_sorted_mobile:
  assumes "0 < pageSize" and "sorted (map position ss)"
  shows "\<exists>pgs. calculatePageOffsets pageSize totalCount (Some ss) True = Some pgs \<and> sorted pgs"
  using assms by (intro calculatePageOffsets_sorted_one_cell) (simp_all add: slotCells_def)

text \<open>
  Claim C3. The table is not non-decreasing for every sorted slot list on desktop: a slot
  whose cells exceed what is left of its page makes \<^verbatim>\<open>skipContent\<close> push an entry
  computed with the whole enlarged offset. With page size three and a slot of two rows and
  two columns at position zero, the second entry is \<open>-1\<close>, below the first.
\<close>

theorem calculatePageOffsets_oversize_slot:
  "calculatePageOffsets 3 10
     (Some [\<lparr>position = 0, rows = 2, cols = 2, isAmplience = False, content = []\<rparr>]) False
     = Some [0, -1, 2, 5, 8] \<and>
   \<not> sorted [0, -1, 2, 5, 8 :: int]"
  by (simp add: calculatePageOffsets_def slotStep_nonzero fillPages_nonzero calcInit_def slotCells_def
      pushPages_eq upt_rec)

section \<open>Properties of the enrichment\<close>

subsection \<open>The flag written on the slots\<close>

lemma placeSlots_marks:
  "sorted (map position ss) \<Longrightarrow>
     snd (placeSlots pageBase pageSize isMobile reservedSpaces items ss) = map (markSlot pageBase pageSize) ss"
proof (induction ss arbitrary: reservedSpaces items)
  case Nil
  then show ?case by simp
next
  case (Cons s ss)
  from Cons.prems have tl: "sorted (map position ss)" and le: "\<forall>t\<in>set ss. position s \<le> position t"
    by auto
  consider (before) "position s < pageBase"
    | (beyond) "\<not> position s < pageBase" "position s \<ge> pageBase + pageSize"
    | (inside) "\<not> position s < pageBase" "\<not> position s \<ge> pageBase + pageSize"
    by blast
  then show ?case
  proof cases
    case before
    then show ?thesis
      using Cons.IH [OF tl, of reservedSpaces items]
      by (simp add: markSlot_def inPage_def split_beta)
  next
    case beyond
    have "map (markSlot pageBase pageSize) ss = ss"
      using le beyond by (intro map_idI) (auto simp: markSlot_def inPage_def)
    moreover have "markSlot pageBase pageSize s = s"
      using beyond by (simp add: markSlot_def inPage_def)
    ultimately show ?thesis
      using beyond by simp
  next
    case inside
    then show ?thesis
      using Cons.IH [OF tl]
      by (simp add: markSlot_def inPage_def Let_def split_beta)
  qed
qed

text \<open>The write leaves the list as it was exactly when every slot of the page carries the
  flag already.\<close>

lemma markSlot_unchanged_iff:
  "map (markSlot pageBase pageSize) ss = ss \<longleftrightarrow>
     (\<forall>s\<in>set ss. inPage pageBase pageSize s \<longrightarrow> isAmplience s)"
proof -
  have "markSlot pageBase pageSize s = s \<longleftrightarrow> (inPage pageBase pageSize s \<longrightarrow> isAmplience s)" for s
  proof (cases "inPage pageBase pageSize s")
    case True
    have "s\<lparr>isAmplience := True\<rparr> = s \<longleftrightarrow> isAmplience s"
      by (cases s) auto
    with True show ?thesis by (simp add: markSlot_def)
  next
    case False
    then show ?thesis by (simp add: markSlot_def)
  qed
  then show ?thesis by (simp add: map_idI list_eq_iff_nth_eq) (metis in_set_conv_nth)
qed

text \<open>
  Claim C10, as amended. When the search result has hits and the slot list is sorted by
  position, the slot list after the call is the list passed in with \<^verbatim>\<open>isAmplience\<close>
  set to true on every slot whose position lies in the index range of the current page
  (from \<^verbatim>\<open>pageBase\<close> up to, not including, \<^verbatim>\<open>pageBase + pageSize\<close>) and with
  every other slot as it was. So the list is changed exactly when one of those slots did
  not carry the flag already.
\<close>

theorem enrichResults_marks_slots:
  assumes "hits r = Some hs" and "sorted (map position ss)"
  shows "snd (enrichResults (Some r) pageSize (Some ss) pgs isMobile) =
         Some (map (markSlot (pageIdOf pgs (offset_r r) * pageSize) pageSize) ss)"
  using assms(1) placeSlots_marks [OF assms(2)]
  by (simp add: enrichResults_def Let_def split_beta)

theorem enrichResults_marks_slots_witness:
  "snd (enrichResults (Some \<lparr>hits = Some [10, 11 :: nat], offset_r = 0, total_r = 10\<rparr>) 3
        (Some [\<lparr>position = 0, rows = 1, cols = 1, isAmplience = False, content = ''a''\<rparr>,
               \<lparr>position = 5, rows = 1, cols = 1, isAmplience = False, content = ''b''\<rparr>])
        [0, 2, 4, 7, 10] False) =
   Some [\<lparr>position = 0, rows = 1, cols = 1, isAmplience = True, content = ''a''\<rparr>,
         \<lparr>position = 5, rows = 1, cols = 1, isAmplience = False, content = ''b''\<rparr>]"
  using enrichResults_marks_slots [of "\<lparr>hits = Some [10, 11 :: nat], offset_r = 0, total_r = 10\<rparr>"
      "[10, 11]"
      "[\<lparr>position = 0, rows = 1, cols = 1, isAmplience = False, content = ''a''\<rparr>,
        \<lparr>position = 5, rows = 1, cols = 1, isAmplience = False, content = ''b''\<rparr>]"
      3 "[0, 2, 4, 7, 10]" False]
  by (simp add: markSlot_def inPage_def pageIdOf_def)

text \<open>
  The claim without the sortedness fails: the loop leaves at the first slot positioned at
  or beyond the end of the page, so a slot of the page that comes later in the list is
  never reached. Here the fetch offset \<open>0\<close> is on page \<open>0\<close>, the slot at position \<open>0\<close> is in
  its range, and the call leaves the list as it was.
\<close>

theorem enrichResults_marks_unsorted_counterexample:
  "pageIdOf [0, 3, 5, 7, 10] 0 = 0 \<and>
   inPage 0 3 \<lparr>position = 0, rows = 1, cols = 1, isAmplience = False, content = ''a''\<rparr> \<and>
   snd (enrichResults (Some \<lparr>hits = Some [10, 11, 12 :: nat], offset_r = 0, total_r = 10\<rparr>) 3
        (Some [\<lparr>position = 5, rows = 1, cols = 1, isAmplience = False, content = ''b''\<rparr>,
               \<lparr>position = 0, rows = 1, cols = 1, isAmplience = False, content = ''a''\<rparr>])
        [0, 3, 5, 7, 10] False) =
   Some [\<lparr>position = 5, rows = 1, cols = 1, isAmplience = False, content = ''b''\<rparr>,
         \<lparr>position = 0, rows = 1, cols = 1, isAmplience = False, content = ''a''\<rparr>]"
  by (simp add: enrichResults_def pageIdOf_def inPage_def Let_def)

subsection \<open>No slots\<close>

lemma findIndex_none: "(\<forall>x\<in>set xs. \<not> p x) \<Longrightarrow> findIndex p xs = -1"
  by (induction xs) simp_all

lemma findIndex_first:
  "i < length xs \<Longrightarrow> p (xs ! i) \<Longrightarrow> (\<forall>j<i. \<not> p (xs ! j)) \<Longrightarrow> findIndex p xs = int i"
proof (induction xs arbitrary: i)
  case Nil
  then show ?case by simp
next
  case (Cons x xs)
  show ?case
  proof (cases i)
    case 0
    with Cons.prems show ?thesis by simp
  next
    case (Suc k)
    with Cons.prems have k: "k < length xs" "p (xs ! k)" and np: "\<not> p x"
      by auto
    have "\<forall>j<k. \<not> p (xs ! j)"
    proof (intro allI impI)
      fix j assume "j < k"
      then have "Suc j < i" using Suc by simp
      with Cons.prems(3) have "\<not> p ((x # xs) ! Suc j)" by blast
      then show "\<not> p (xs ! j)" by simp
    qed
    from Cons.IH [OF k this] np Suc show ?thesis by simp
  qed
qed

lemma calculatePageOffsets_no_slots:
  assumes "0 < pageSize" and "ampSlots = None \<or> ampSlots = Some []"
  shows "calculatePageOffsets pageSize totalCount ampSlots isMobile =
         Some (map (\<lambda>k. int k * pageSize) [0 ..< nat (totalCount div pageSize + 1)])"
  using assms by (auto simp: calculatePageOffsets_def fillPages_nonzero calcInit_def pushPages_eq)

lemma pageIdOf_multiples:
  assumes "0 < pageSize" and "0 \<le> off" and "off \<le> T"
  shows "pageIdOf (map (\<lambda>k. int k * pageSize) [0 ..< nat (T div pageSize + 1)]) off = off div pageSize"
proof -
  let ?pgs = "map (\<lambda>k. int k * pageSize) [0 ..< nat (T div pageSize + 1)]"
  let ?j = "off div pageSize"
  have j0: "0 \<le> ?j" using assms by (simp add: pos_imp_zdiv_nonneg_iff)
  have jT: "?j \<le> T div pageSize" using assms by (intro zdiv_mono1) auto
  have len: "int (length ?pgs) = T div pageSize + 1" using j0 jT by simp
  show ?thesis
  proof (cases "?j < T div pageSize")
    case True
    let ?i = "nat (?j + 1)"
    have i: "?i < length ?pgs" using True j0 by simp
    have lt: "off < (?j + 1) * pageSize"
      using assms(1) by (rule less_div_succ_mult_int)
    have pi: "?pgs ! ?i > off"
      using i j0 lt by simp
    have "\<forall>k<?i. \<not> ?pgs ! k > off"
    proof (intro allI impI)
      fix k assume k: "k < ?i"
      then have "int k \<le> ?j" using j0 by linarith
      then have "int k * pageSize \<le> ?j * pageSize" using assms(1) by (simp add: mult_right_mono)
      also have "\<dots> \<le> off" using assms(1) by (rule div_mult_le_int)
      finally have "int k * pageSize \<le> off" .
      moreover have "k < length ?pgs" using k i by linarith
      ultimately show "\<not> ?pgs ! k > off" by simp
    qed
    from findIndex_first [of ?i ?pgs "\<lambda>p. p > off", OF i pi this]
    show ?thesis using j0 by (simp add: pageIdOf_def Let_def)
  next
    case False
    with jT have eq: "?j = T div pageSize" by simp
    have "\<forall>x\<in>set ?pgs. \<not> x > off"
    proof
      fix x assume "x \<in> set ?pgs"
      then obtain k where k: "k < nat (T div pageSize + 1)" and x: "x = int k * pageSize" by auto
      then have "int k \<le> ?j" using eq by linarith
      then have "int k * pageSize \<le> ?j * pageSize" using assms(1) by (simp add: mult_right_mono)
      also have "\<dots> \<le> off" using assms(1) by (rule div_mult_le_int)
      finally show "\<not> x > off" using x by simp
    qed
    from findIndex_none [OF this] show ?thesis
      using len eq by (simp add: pageIdOf_def Let_def)
  qed
qed

lemma jsIndex_map_upt:
  "0 \<le> i \<Longrightarrow> i < int n \<Longrightarrow> jsIndex (map f [0 ..< n]) i = Some (f (nat i))"
  by (simp add: jsIndex_def)

lemma jsIndex_beyond: "int (length xs) \<le> i \<Longrightarrow> jsIndex xs i = None"
  by (simp add: jsIndex_def)

lemma sfccCount_multiples:
  assumes "0 < pageSize" and "0 \<le> off" and "off \<le> T"
  shows "\<exists>n. sfccCount (map (\<lambda>k. int k * pageSize) [0 ..< nat (T div pageSize + 1)]) (off div pageSize) T = Some n
             \<and> (pageSize \<le> n \<or> T - off \<le> n)"
proof -
  let ?pgs = "map (\<lambda>k. int k * pageSize) [0 ..< nat (T div pageSize + 1)]"
  let ?j = "off div pageSize"
  have j0: "0 \<le> ?j" using assms by (simp add: pos_imp_zdiv_nonneg_iff)
  have jT: "?j \<le> T div pageSize" using assms by (intro zdiv_mono1) auto
  have base: "jsIndex ?pgs ?j = Some (?j * pageSize)"
    using jsIndex_map_upt [of ?j "nat (T div pageSize + 1)" "\<lambda>k. int k * pageSize"] j0 jT by simp
  show ?thesis
  proof (cases "?j < T div pageSize")
    case True
    then have "jsIndex ?pgs (?j + 1) = Some ((?j + 1) * pageSize)"
      using jsIndex_map_upt [of "?j + 1" "nat (T div pageSize + 1)" "\<lambda>k. int k * pageSize"] j0 by simp
    then show ?thesis using base by (simp add: sfccCount_def algebra_simps)
  next
    case False
    then have "jsIndex ?pgs (?j + 1) = None"
      using j0 by (intro jsIndex_beyond) simp
    moreover have "?j * pageSize \<le> off" using assms(1) by (rule div_mult_le_int)
    ultimately show ?thesis using base by (simp add: sfccCount_def)
  qed
qed

lemma jsSlice0_all: "int (length xs) \<le> n \<Longrightarrow> jsSlice0 xs (Some n) = xs"
  by (simp add: jsSlice0_def)

text \<open>
  Claim C4, as amended. For a positive page size and a search result whose offset is at
  least zero, whose hits number at most the page size and whose offset plus number of hits
  is at most its total, when the slot list is empty or absent and the page-offset table is
  the one computed for the same page size and total, \<^verbatim>\<open>enrichResults\<close> returns the
  hits unchanged and in their order (and leaves the slot list as it is).
\<close>

theorem enrichResults_no_slots:
  assumes "0 < pageSize" and "0 \<le> offset_r r" and "hits r = Some hs"
    and "int (length hs) \<le> pageSize" and "offset_r r + int (length hs) \<le> total_r r"
    and "ampSlots = None \<or> ampSlots = Some []"
    and "calculatePageOffsets pageSize (total_r r) ampSlots isMobile = Some pgs"
  shows "enrichResults (Some r) pageSize ampSlots pgs isMobile = (Some (map Hit hs), ampSlots)"
proof -
  let ?T = "total_r r" and ?off = "offset_r r"
  have offT: "?off \<le> ?T" using assms(5) by linarith
  have pgs: "pgs = map (\<lambda>k. int k * pageSize) [0 ..< nat (?T div pageSize + 1)]"
    using calculatePageOffsets_no_slots [OF assms(1,6), of ?T isMobile] assms(7) by simp
  have pid: "pageIdOf pgs ?off = ?off div pageSize"
    unfolding pgs using assms(1,2) offT by (rule pageIdOf_multiples)
  obtain n where n: "sfccCount pgs (?off div pageSize) ?T = Some n" and big: "pageSize \<le> n \<or> ?T - ?off \<le> n"
    using sfccCount_multiples [OF assms(1,2) offT] unfolding pgs by blast
  have "int (length (map Hit hs)) \<le> n" using big assms(4,5) by auto
  then have "jsSlice0 (map Hit hs) (Some n) = map Hit hs" by (rule jsSlice0_all)
  then show ?thesis
    using assms(3,6) pid n by (auto simp: enrichResults_def Let_def)
qed

theorem enrichResults_no_slots_witness:
  "enrichResults (Some \<lparr>hits = Some [1, 2, 3 :: nat], offset_r = 3, total_r = 10\<rparr>) 3 (Some []) [0, 3, 6, 9] False
   = (Some [Hit 1, Hit 2, Hit 3], Some [])"
proof -
  have "calculatePageOffsets 3 10 (Some []) False = Some [0, 3, 6, 9]"
    by (simp add: calculatePageOffsets_def fillPages_nonzero calcInit_def pushPages_eq upt_rec)
  then show ?thesis
    using enrichResults_no_slots [of 3 "\<lparr>hits = Some [1, 2, 3 :: nat], offset_r = 3, total_r = 10\<rparr>"
        "[1, 2, 3]" "Some []" False "[0, 3, 6, 9]"]
    by simp
qed

text \<open>
  The claim for every search result fails: the hits are cut to the number of products of
  the page, \<^verbatim>\<open>hits.slice(0, sfccCount)\<close>. Four hits on a page of three come back as
  three.
\<close>

theorem enrichResults_no_slots_counterexample:
  "calculatePageOffsets 3 10 (Some []) False = Some [0, 3, 6, 9] \<and>
   fst (enrichResults (Some \<lparr>hits = Some [1, 2, 3, 4 :: nat], offset_r = 0, total_r = 10\<rparr>) 3 (Some [])
          [0, 3, 6, 9] False)
     = Some [Hit 1, Hit 2, Hit 3] \<and>
   Some [Hit 1, Hit 2, Hit 3] \<noteq> Some (map Hit [1, 2, 3, 4 :: nat])"
  by (simp add: calculatePageOffsets_def fillPages_nonzero calcInit_def pushPages_eq upt_rec
      enrichResults_def pageIdOf_def sfccCount_def jsIndex_def jsSlice0_def Let_def)

subsection \<open>A slot at position zero\<close>

lemma headZeroTailPos_append:
  "headZeroTailPos xs \<Longrightarrow> list_all (\<lambda>y. 0 < y) ys \<Longrightarrow> headZeroTailPos (xs @ ys)"
  by (cases xs) simp_all

lemma pushPages_first_page:
  assumes "0 < pageSize" and "headZeroTailPos xs" and "off < pageSize * int (length xs)"
  shows "headZeroTailPos (pushPages pageSize off t xs)"
proof -
  have "list_all (\<lambda>y. 0 < y) (map (\<lambda>k. int k * pageSize - off) [length xs ..< nat (t + 1)])"
  proof (simp add: list_all_iff, intro ballI)
    fix k assume "k \<in> {length xs ..< nat (t + 1)}"
    then have "int (length xs) \<le> int k" by simp
    then have "pageSize * int (length xs) \<le> pageSize * int k"
      using assms(1) by (simp add: mult_left_mono)
    with assms(3) show "off < int k * pageSize" by (simp add: mult.commute)
  qed
  with assms(2) show ?thesis by (simp add: pushPages_eq headZeroTailPos_append)
qed

lemma slotStep_first_page:
  assumes "0 < pageSize" and "1 \<le> position s" and "slotCells isMobile s = 1"
    and "headZeroTailPos (pages st)" and "offset st < pageSize * int (length (pages st))"
  shows "\<exists>st'. slotStep pageSize isMobile st s = Some st' \<and> headZeroTailPos (pages st') \<and>
           offset st' < pageSize * int (length (pages st'))"
proof -
  let ?xs1 = "pushPages pageSize (offset st) ((position s + offset st) div pageSize) (pages st)"
  let ?xs2 = "pushPages pageSize (offset st + 1) ((position s + (offset st + 1)) div pageSize) ?xs1"
  have h1: "headZeroTailPos ?xs1" using assms(1,4,5) by (rule pushPages_first_page)
  have "position s + offset st < pageSize * int (length ?xs1)" using assms(1) by (rule pushPages_covers)
  with assms(2) have o1: "offset st + 1 < pageSize * int (length ?xs1)" by linarith
  have h2: "headZeroTailPos ?xs2" using assms(1) h1 o1 by (rule pushPages_first_page)
  have "length ?xs1 \<le> length ?xs2" by (simp add: length_pushPages)
  then have "pageSize * int (length ?xs1) \<le> pageSize * int (length ?xs2)"
    using assms(1) by (simp add: mult_left_mono)
  with o1 have o2: "offset st + 1 < pageSize * int (length ?xs2)" by linarith
  show ?thesis using assms(1,3) h2 o2 by (simp add: slotStep_nonzero)
qed

lemma slotLoop_first_page:
  assumes "0 < pageSize" and "\<forall>s\<in>set ss. 1 \<le> position s \<and> slotCells isMobile s = 1"
    and "headZeroTailPos (pages st)" and "offset st < pageSize * int (length (pages st))"
  shows "\<exists>st'. slotLoop pageSize isMobile st ss = Some st' \<and> headZeroTailPos (pages st') \<and>
           offset st' < pageSize * int (length (pages st'))"
  using assms(2-4)
proof (induction ss arbitrary: st)
  case Nil
  then show ?case by simp
next
  case (Cons s ss)
  from Cons.prems(1) have s: "1 \<le> position s" "slotCells isMobile s = 1"
    and rest: "\<forall>s\<in>set ss. 1 \<le> position s \<and> slotCells isMobile s = 1" by simp_all
  from slotStep_first_page [OF assms(1) s Cons.prems(2,3)]
  obtain st1 where st1: "slotStep pageSize isMobile st s = Some st1" "headZeroTailPos (pages st1)"
      "offset st1 < pageSize * int (length (pages st1))" by blast
  from Cons.IH [OF rest st1(2,3)] st1(1) show ?case by simp
qed

lemma first_slot_step:
  assumes "1 < pageSize" and "position s = 0" and "slotCells isMobile s = 1"
  shows "slotStep pageSize isMobile calcInit s = Some \<lparr>pages = [0], processed = 0, offset = 1\<rparr>"
proof -
  have "(1::int) div pageSize = 0" using assms(1) by simp
  then show ?thesis
    using assms by (simp add: slotStep_nonzero calcInit_def pushPages_eq)
qed

lemma calculatePageOffsets_first_page:
  assumes "1 < pageSize" and "position s0 = 0" and "\<forall>s\<in>set rest. 1 \<le> position s"
    and "\<forall>s\<in>set (s0 # rest). slotCells isMobile s = 1"
  shows "\<exists>pgs. calculatePageOffsets pageSize totalCount (Some (s0 # rest)) isMobile = Some pgs \<and>
           headZeroTailPos pgs"
proof -
  let ?st0 = "\<lparr>pages = [0], processed = 0, offset = 1\<rparr>"
  have ps: "0 < pageSize" using assms(1) by simp
  have first: "slotStep pageSize isMobile calcInit s0 = Some ?st0"
    using assms(1,2,4) by (intro first_slot_step) simp_all
  have rest: "\<forall>s\<in>set rest. 1 \<le> position s \<and> slotCells isMobile s = 1"
    using assms(3,4) by simp
  have "headZeroTailPos (pages ?st0)" and "offset ?st0 < pageSize * int (length (pages ?st0))"
    using assms(1) by simp_all
  from slotLoop_first_page [OF ps rest this]
  obtain st' where st': "slotLoop pageSize isMobile ?st0 rest = Some st'" "headZeroTailPos (pages st')"
      "offset st' < pageSize * int (length (pages st'))" by blast
  have "headZeroTailPos (pushPages pageSize (offset st') ((totalCount + offset st') div pageSize) (pages st'))"
    using ps st'(2,3) by (rule pushPages_first_page)
  then show ?thesis
    using first st'(1) ps by (simp add: calculatePageOffsets_def fillPages_nonzero)
qed

lemma pageIdOf_first_page: "headZeroTailPos pgs \<Longrightarrow> pageIdOf pgs 0 = 0"
proof (cases pgs)
  case Nil
  assume "headZeroTailPos pgs"
  with Nil show ?thesis by simp
next
  case (Cons x xs)
  assume "headZeroTailPos pgs"
  with Cons show ?thesis
    by (cases xs) (simp_all add: pageIdOf_def Let_def)
qed

lemma slotCellsEnrich_eq: "slotCellsEnrich isMobile s = slotCells isMobile s"
  by (simp add: slotCellsEnrich_def slotCells_def mult.commute)

lemma jsSpliceIn_front: "jsSpliceIn xs 0 y = y # xs"
  by (simp add: jsSpliceIn_def Let_def)

lemma jsSpliceIn_keeps_head: "1 \<le> start \<Longrightarrow> \<exists>r. jsSpliceIn (x # xs) start y = x # r"
proof -
  assume "1 \<le> start"
  then have "0 < nat (min start (int (length (x # xs))))" by simp
  then obtain k where "nat (min start (int (length (x # xs)))) = Suc k"
    using gr0_implies_Suc by blast
  with \<open>1 \<le> start\<close> show ?thesis by (simp add: jsSpliceIn_def Let_def)
qed

lemma placeSlots_keeps_head:
  "\<forall>s\<in>set ss. 1 \<le> position s \<and> slotCells isMobile s = 1 \<Longrightarrow>
     \<exists>r. fst (placeSlots 0 pageSize isMobile 0 (x # items) ss) = x # r"
proof (induction ss arbitrary: items)
  case Nil
  then show ?case by simp
next
  case (Cons s ss)
  from Cons.prems have s: "1 \<le> position s" "slotCells isMobile s = 1"
    and rest: "\<forall>s\<in>set ss. 1 \<le> position s \<and> slotCells isMobile s = 1" by simp_all
  obtain r where r: "jsSpliceIn (x # items) (position s) (SlotItem (s\<lparr>isAmplience := True\<rparr>)) = x # r"
    using jsSpliceIn_keeps_head [OF s(1), of x items "SlotItem (s\<lparr>isAmplience := True\<rparr>)"] by auto
  from Cons.IH [OF rest, of r] Cons.IH [OF rest, of items] show ?case
    using s r by (simp add: Let_def split_beta slotCellsEnrich_eq)
qed

text \<open>
  With one cell per slot, as always on mobile, the first page keeps a product whatever the
  slot list: for page size three and fetch offset zero, a slot at position zero that heads a
  list continued by slots at positions of at least one is the first element of the
  sequence \<^verbatim>\<open>enrichResults\<close> returns.
\<close>

lemma slot_at_zero_first_one_cell:
  assumes "hits r = Some hs" and "offset_r r = 0"
    and "position s0 = 0" and "\<forall>s\<in>set rest. 1 \<le> position s"
    and "\<forall>s\<in>set (s0 # rest). slotCells isMobile s = 1"
    and "calculatePageOffsets 3 (total_r r) (Some (s0 # rest)) isMobile = Some pgs"
  shows "Option.bind (fst (enrichResults (Some r) 3 (Some (s0 # rest)) pgs isMobile)) (\<lambda>items. jsIndex items 0)
         = Some (SlotItem (s0\<lparr>isAmplience := True\<rparr>))"
proof -
  have "headZeroTailPos pgs"
    using calculatePageOffsets_first_page [of 3 s0 rest isMobile "total_r r"] assms(3-6) by auto
  then have pid: "pageIdOf pgs 0 = 0" by (rule pageIdOf_first_page)
  let ?items = "jsSlice0 (map Hit hs) (sfccCount pgs 0 (total_r r))"
  let ?x = "SlotItem (s0\<lparr>isAmplience := True\<rparr>) :: 'a item"
  have rest: "\<forall>s\<in>set rest. 1 \<le> position s \<and> slotCells isMobile s = 1"
    using assms(4,5) by simp
  obtain t where t: "fst (placeSlots 0 3 isMobile 0 (?x # ?items) rest) = ?x # t"
    using placeSlots_keeps_head [OF rest] by blast
  have s0: "slotCells isMobile s0 = 1" using assms(5) by simp
  have "fst (enrichResults (Some r) 3 (Some (s0 # rest)) pgs isMobile) = Some (?x # t)"
    using assms(1,2,3) pid t s0
    by (simp add: enrichResults_def Let_def split_beta jsSpliceIn_front slotCellsEnrich_eq)
  then show ?thesis by (simp add: jsIndex_def)
qed

lemma slot_at_zero_first_one_cell_example:
  "calculatePageOffsets 3 10
     (Some [\<lparr>position = 0, rows = 2, cols = 2, isAmplience = False, content = ''a''\<rparr>,
            \<lparr>position = 1, rows = 1, cols = 1, isAmplience = False, content = ''b''\<rparr>]) True
     = Some [0, 1, 4, 7, 10] \<and>
   Option.bind
     (fst (enrichResults (Some \<lparr>hits = Some [10, 11, 12 :: nat], offset_r = 0, total_r = 10\<rparr>) 3
        (Some [\<lparr>position = 0, rows = 2, cols = 2, isAmplience = False, content = ''a''\<rparr>,
               \<lparr>position = 1, rows = 1, cols = 1, isAmplience = False, content = ''b''\<rparr>])
        [0, 1, 4, 7, 10] True))
     (\<lambda>items. jsIndex items 0)
     = Some (SlotItem \<lparr>position = 0, rows = 2, cols = 2, isAmplience = True, content = ''a''\<rparr>)"
proof -
  have pgs: "calculatePageOffsets 3 10
     (Some [\<lparr>position = 0, rows = 2, cols = 2, isAmplience = False, content = ''a''\<rparr>,
            \<lparr>position = 1, rows = 1, cols = 1, isAmplience = False, content = ''b''\<rparr>]) True
     = Some [0, 1, 4, 7, 10]"
    by (simp add: calculatePageOffsets_def slotStep_nonzero fillPages_nonzero calcInit_def slotCells_def
        pushPages_eq upt_rec)
  then show ?thesis
    using slot_at_zero_first_one_cell [of "\<lparr>hits = Some [10, 11, 12 :: nat], offset_r = 0, total_r = 10\<rparr>"
        "[10, 11, 12]" "\<lparr>position = 0, rows = 2, cols = 2, isAmplience = False, content = ''a''\<rparr>"
        "[\<lparr>position = 1, rows = 1, cols = 1, isAmplience = False, content = ''b''\<rparr>]" True
        "[0, 1, 4, 7, 10]"]
    by (simp add: slotCells_def)
qed

text \<open>
  The list has to be sorted: the loop leaves at the first slot positioned at or beyond the
  end of the page, so a slot at position zero that comes after such a slot in the list is
  not placed at all.
\<close>

lemma slot_at_zero_unsorted:
  "calculatePageOffsets 3 10
     (Some [\<lparr>position = 5, rows = 1, cols = 1, isAmplience = False, content = ''b''\<rparr>,
            \<lparr>position = 0, rows = 1, cols = 1, isAmplience = False, content = ''a''\<rparr>]) False
     = Some [0, 3, 5, 7, 10] \<and>
   fst (enrichResults (Some \<lparr>hits = Some [10, 11, 12 :: nat], offset_r = 0, total_r = 10\<rparr>) 3
        (Some [\<lparr>position = 5, rows = 1, cols = 1, isAmplience = False, content = ''b''\<rparr>,
               \<lparr>position = 0, rows = 1, cols = 1, isAmplience = False, content = ''a''\<rparr>])
        [0, 3, 5, 7, 10] False)
     = Some [Hit 10, Hit 11, Hit 12]"
  by (simp add: calculatePageOffsets_def slotStep_nonzero fillPages_nonzero calcInit_def slotCells_def
      pushPages_eq upt_rec enrichResults_def pageIdOf_def sfccCount_def jsIndex_def jsSlice0_def Let_def)

text \<open>
  For slots of any size: the table of a list headed by a slot at position zero starts with
  zero, and when its first page keeps at least one product (the table has one entry, or its
  second entry is positive) and the slots do not overlap, the slot at position zero is the
  first element of the sequence for the fetch offset zero.
\<close>

lemma slotStep_extends:
  "pageSize \<noteq> 0 \<Longrightarrow> \<exists>st' ys. slotStep pageSize isMobile st s = Some st' \<and> pages st' = pages st @ ys"
  by (simp add: slotStep_nonzero pushPages_eq)

lemma slotLoop_extends:
  "pageSize \<noteq> 0 \<Longrightarrow> \<exists>st' ys. slotLoop pageSize isMobile st ss = Some st' \<and> pages st' = pages st @ ys"
proof (induction ss arbitrary: st)
  case Nil
  then show ?case by simp
next
  case (Cons s ss)
  from slotStep_extends [OF Cons.prems, of isMobile st s]
  obtain st1 ys where st1: "slotStep pageSize isMobile st s = Some st1" "pages st1 = pages st @ ys"
    by blast
  from Cons.IH [OF Cons.prems, of st1]
  obtain st' zs where "slotLoop pageSize isMobile st1 ss = Some st'" "pages st' = pages st1 @ zs"
    by blast
  with st1 show ?case by simp
qed

lemma calculatePageOffsets_starts_at_zero:
  assumes "0 < pageSize" and "position s0 = 0"
    and "calculatePageOffsets pageSize totalCount (Some (s0 # rest)) isMobile = Some pgs"
  shows "\<exists>later. pgs = 0 # later"
proof -
  obtain st1 where st1: "slotStep pageSize isMobile calcInit s0 = Some st1"
    and p1: "\<exists>ys. pages st1 = 0 # ys"
    using assms(1,2) by (simp add: slotStep_nonzero calcInit_def pushPages_eq upt_conv_Cons)
  obtain st2 zs where st2: "slotLoop pageSize isMobile st1 rest = Some st2" "pages st2 = pages st1 @ zs"
    using slotLoop_extends [of pageSize isMobile st1 rest] assms(1) by auto
  have "pgs = pushPages pageSize (offset st2) ((totalCount + offset st2) div pageSize) (pages st2)"
    using assms(1,3) st1 st2(1) by (simp add: calculatePageOffsets_def fillPages_nonzero)
  with st2(2) p1 show ?thesis by (auto simp: pushPages_eq)
qed

lemma pageIdOf_room:
  assumes "length later = 0 \<or> 0 < hd later"
  shows "pageIdOf (0 # later) 0 = 0"
  using assms by (cases later) (simp_all add: pageIdOf_def Let_def)

lemma placeSlots_apart_keeps_head:
  assumes "\<forall>s\<in>set ss. 0 \<le> slotCells isMobile s" and "slotsApart isMobile e ss"
    and "0 \<le> e" and "reservedSpaces + 1 \<le> e"
  shows "\<exists>t. fst (placeSlots 0 pageSize isMobile reservedSpaces (x # items) ss) = x # t"
  using assms
proof (induction ss arbitrary: items e reservedSpaces)
  case Nil
  then show ?case by simp
next
  case (Cons s ss)
  let ?c = "slotCells isMobile s"
  from Cons.prems have c: "0 \<le> ?c" and cs: "\<forall>s\<in>set ss. 0 \<le> slotCells isMobile s"
    and pos: "e \<le> position s" and apart: "slotsApart isMobile (position s + ?c) ss"
    by simp_all
  have idx: "1 \<le> position s - 0 - reservedSpaces" using pos Cons.prems(4) by linarith
  obtain t where t: "jsSpliceIn (x # items) (position s - 0 - reservedSpaces) (SlotItem (s\<lparr>isAmplience := True\<rparr>)) = x # t"
    using jsSpliceIn_keeps_head [OF idx, of x items "SlotItem (s\<lparr>isAmplience := True\<rparr>)"] by auto
  have e': "0 \<le> position s + ?c" using pos Cons.prems(3) c by linarith
  have r': "(reservedSpaces + (?c - 1)) + 1 \<le> position s + ?c" using pos Cons.prems(4) by linarith
  from Cons.IH [OF cs apart e' r', of t]
  obtain t' where "fst (placeSlots 0 pageSize isMobile (reservedSpaces + (?c - 1)) (x # t) ss) = x # t'"
    by blast
  moreover have "\<not> position s < 0" using pos Cons.prems(3) by linarith
  ultimately show ?case using t by (simp add: Let_def split_beta slotCellsEnrich_eq)
qed

lemma slot_at_zero_first_with_room:
  assumes "hits r = Some hs" and "offset_r r = 0"
    and "position s0 = 0"
    and "\<forall>s\<in>set (s0 # rest). 0 \<le> slotCells isMobile s"
    and "slotsApart isMobile (slotCells isMobile s0) rest"
    and "calculatePageOffsets 3 (total_r r) (Some (s0 # rest)) isMobile = Some pgs"
    and "length pgs = 1 \<or> 0 < pgs ! 1"
  shows "Option.bind (fst (enrichResults (Some r) 3 (Some (s0 # rest)) pgs isMobile)) (\<lambda>items. jsIndex items 0)
         = Some (SlotItem (s0\<lparr>isAmplience := True\<rparr>))"
proof -
  obtain later where later: "pgs = 0 # later"
    using calculatePageOffsets_starts_at_zero [of 3 s0 "total_r r" rest isMobile pgs] assms(3,6) by auto
  have "length later = 0 \<or> 0 < hd later"
    using assms(7) later by (cases later) auto
  then have pid: "pageIdOf pgs 0 = 0" unfolding later by (rule pageIdOf_room)
  let ?items = "jsSlice0 (map Hit hs) (sfccCount pgs 0 (total_r r))"
  let ?x = "SlotItem (s0\<lparr>isAmplience := True\<rparr>) :: 'a item"
  let ?c0 = "slotCells isMobile s0"
  have c0: "0 \<le> ?c0" and cs: "\<forall>s\<in>set rest. 0 \<le> slotCells isMobile s"
    using assms(4) by simp_all
  have r0: "(0 + (?c0 - 1)) + 1 \<le> ?c0" by simp
  obtain t where t: "fst (placeSlots 0 3 isMobile (0 + (?c0 - 1)) (?x # ?items) rest) = ?x # t"
    using placeSlots_apart_keeps_head [OF cs assms(5) c0 r0, of 3 ?x ?items] by blast
  have "fst (enrichResults (Some r) 3 (Some (s0 # rest)) pgs isMobile) = Some (?x # t)"
    using assms(1,2,3) pid t
    by (simp add: enrichResults_def Let_def split_beta jsSpliceIn_front slotCellsEnrich_eq)
  then show ?thesis by (simp add: jsIndex_def)
qed

text \<open>
  Claim C7. A slot at position zero on page size three is not always the first element of
  the first page's sequence. A slot of one row and three columns at position zero, alone in
  its (sorted) list, takes every cell of the first page on desktop: \<^verbatim>\<open>skipContent\<close>
  pushes the second page with product offset zero as well, the fetch offset zero is read as
  the second page (the last entry not above it), and the sequence returned holds the three
  hits and no slot.
\<close>

theorem full_row_slot_at_zero:
  "calculatePageOffsets 3 10
     (Some [\<lparr>position = 0, rows = 1, cols = 3, isAmplience = False, content = ''a''\<rparr>]) False
     = Some [0, 0, 3, 6, 9] \<and>
   pageIdOf [0, 0, 3, 6, 9] 0 = 1 \<and>
   fst (enrichResults (Some \<lparr>hits = Some [10, 11, 12 :: nat], offset_r = 0, total_r = 10\<rparr>) 3
        (Some [\<lparr>position = 0, rows = 1, cols = 3, isAmplience = False, content = ''a''\<rparr>])
        [0, 0, 3, 6, 9] False)
     = Some [Hit 10, Hit 11, Hit 12]"
  by (simp add: calculatePageOffsets_def slotStep_nonzero fillPages_nonzero calcInit_def slotCells_def
      pushPages_eq upt_rec enrichResults_def pageIdOf_def sfccCount_def jsIndex_def jsSlice0_def Let_def)

section \<open>Properties of the filter toggle\<close>

text \<open>
  Claim C6. With \<^verbatim>\<open>allowMultiple = false\<close>, whatever the refinement attribute held
  before, the parameters handed to the navigation hold exactly the new value under the
  attribute when \<^verbatim>\<open>selected\<close> is false (the old value is replaced, nothing is
  appended), and nothing under it when \<^verbatim>\<open>selected\<close> is true. The other attributes
  are as they were.
\<close>

theorem toggleFilter_single_select:
  "refine (snd (toggleFilter v a False False sp)) = (refine sp)(a \<mapsto> Str v) \<and>
   refine (snd (toggleFilter v a True False sp)) = (refine sp)(a := None)"
  by (simp add: toggleFilter_def Let_def)

section \<open>Properties of the import command\<close>

text \<open>
  Claim C5. The commands the handler runs are, in this order, the configuration of the
  tool and then the imports of settings, schemas, content types, content items, slots and
  events; each runs only after every earlier one has ended with exit status zero, and the
  first one to end otherwise is the last to run.
\<close>

theorem importHandler_runs_steps_in_order:
  "execsOf (fst (importHandler sh c)) = runSteps sh [] (configureCmd c # importSteps c) \<and>
   importSteps c = [settingsCmd c, schemaCmd c, typeCmd c, contentCmd c, slotsCmd c, eventsCmd c]"
  by (simp add: importHandler_def importSteps_def Let_def)

end
